theory Spec2Isabelle
  imports Main "HOL-Library.Word"
begin

section \<open>The pull interface\<close>

text \<open>
  Every iterator class of \<^verbatim>\<open>lazypp.hpp\<close> has one operation,
  \<^verbatim>\<open>std::optional<value_type> next()\<close>, which may change the members of the object.
  An iterator object is modelled by the value of its members, and \<^verbatim>\<open>next\<close> by a function
  from the members before the call to the returned optional and the members after it.
  A call that does not return (the loop of \<^verbatim>\<open>filter_iterator::next\<close> can run forever)
  has the value \<open>None\<close>; the inner \<open>option\<close> is the \<^verbatim>\<open>std::optional\<close> of the source.

  The classes are templates over the type of the inner iterator and over the types of the
  callables. A template parameter becomes a type variable, and the operation the template
  body uses from it (\<^verbatim>\<open>BaseIterator::next\<close>, \<^verbatim>\<open>Func::operator()\<close>) becomes a function
  argument. A callable is an object stored by value in the iterator: it is modelled by the
  value of its own members, and its call operator takes the argument and the members and
  returns the result and the members after the call. Callables are assumed to return, and
  to touch nothing but their argument and their own members.

  The members \<^verbatim>\<open>map_func_\<close>, \<^verbatim>\<open>num_\<close>, \<^verbatim>\<open>ended_\<close>, ... are named without the
  trailing underscore, and the member \<^verbatim>\<open>base_\<close>, which four classes have, carries the
  name of its class.
\<close>

type_synonym ('s, 'a) next_fn = "'s \<Rightarrow> ('a option \<times> 's) option"

type_synonym ('f, 'a, 'r) call_fn = "'a \<Rightarrow> 'f \<Rightarrow> 'r \<times> 'f"

type_synonym size_t = "64 word"

section \<open>map\_iterator\<close>

text \<open>Members \<^verbatim>\<open>map_func_\<close> and \<^verbatim>\<open>base_\<close>.\<close>

record ('f, 'b) map_iterator =
  map_func :: 'f
  map_base :: 'b

definition map_next ::
  "('f, 'a, 'r) call_fn \<Rightarrow> ('b, 'a) next_fn \<Rightarrow> (('f, 'b) map_iterator, 'r) next_fn" where
  "map_next call nxt m =
     (case nxt (map_base m) of
        None \<Rightarrow> None
      | Some (None, b') \<Rightarrow> Some (None, m\<lparr>map_base := b'\<rparr>)
      | Some (Some v, b') \<Rightarrow>
          (case call v (map_func m) of
             (r, f') \<Rightarrow> Some (Some r, \<lparr>map_func = f', map_base = b'\<rparr>)))"

section \<open>filter\_iterator\<close>

text \<open>Members \<^verbatim>\<open>filter_func_\<close> and \<^verbatim>\<open>base_\<close>. The \<^verbatim>\<open>for\<close> loop of \<^verbatim>\<open>next\<close> pulls from
  the inner iterator until a value passes or the inner iterator returns empty.\<close>

record ('f, 'b) filter_iterator =
  filter_func :: 'f
  filter_base :: 'b

partial_function (option) filter_next ::
  "('f, 'a, bool) call_fn \<Rightarrow> ('b, 'a) next_fn \<Rightarrow> ('f, 'b) filter_iterator
     \<Rightarrow> ('a option \<times> ('f, 'b) filter_iterator) option" where
  "filter_next call nxt it =
     (case nxt (filter_base it) of
        None \<Rightarrow> None
      | Some (None, b') \<Rightarrow> Some (None, it\<lparr>filter_base := b'\<rparr>)
      | Some (Some v, b') \<Rightarrow>
          (case call v (filter_func it) of
             (ok, f') \<Rightarrow>
               if ok then Some (Some v, \<lparr>filter_func = f', filter_base = b'\<rparr>)
               else filter_next call nxt \<lparr>filter_func = f', filter_base = b'\<rparr>))"

declare filter_next.simps [code]

section \<open>take\_iterator\<close>

text \<open>Members \<^verbatim>\<open>num_\<close> (a \<^verbatim>\<open>size_t\<close>) and \<^verbatim>\<open>base_\<close>.\<close>

record 'b take_iterator =
  num :: size_t
  take_base :: 'b

definition take_next :: "('b, 'a) next_fn \<Rightarrow> ('b take_iterator, 'a) next_fn" where
  "take_next nxt t =
     (if num t \<noteq> 0 then
        (case nxt (take_base t) of
           None \<Rightarrow> None
         | Some (v, b') \<Rightarrow> Some (v, \<lparr>num = num t - 1, take_base = b'\<rparr>))
      else Some (None, t))"

section \<open>generate\_iterator\<close>

record 'f generate_iterator =
  gen_func :: 'f

definition generate_next ::
  "('f, unit, 'a) call_fn \<Rightarrow> ('f generate_iterator, 'a) next_fn" where
  "generate_next call g =
     (case call () (gen_func g) of (v, f') \<Rightarrow> Some (Some v, \<lparr>gen_func = f'\<rparr>))"

section \<open>take\_while\_iterator\<close>

text \<open>Members \<^verbatim>\<open>test_func_\<close>, \<^verbatim>\<open>base_\<close> and \<^verbatim>\<open>ended_\<close>. The test
  \<^verbatim>\<open>v && test_func_(*v)\<close> calls the predicate only on a present value.\<close>

record ('f, 'b) take_while_iterator =
  test_func :: 'f
  tw_base :: 'b
  ended :: bool

definition take_while_next ::
  "('f, 'a, bool) call_fn \<Rightarrow> ('b, 'a) next_fn \<Rightarrow> (('f, 'b) take_while_iterator, 'a) next_fn" where
  "take_while_next call nxt t =
     (if ended t then Some (None, t)
      else
        (case nxt (tw_base t) of
           None \<Rightarrow> None
         | Some (None, b') \<Rightarrow> Some (None, t\<lparr>tw_base := b', ended := True\<rparr>)
         | Some (Some v, b') \<Rightarrow>
             (case call v (test_func t) of
                (ok, f') \<Rightarrow>
                  if ok then Some (Some v, \<lparr>test_func = f', tw_base = b', ended = False\<rparr>)
                  else Some (None, \<lparr>test_func = f', tw_base = b', ended = True\<rparr>))))"

section \<open>range\_iterator\<close>

text \<open>Members \<^verbatim>\<open>actual_\<close>, \<^verbatim>\<open>is_last_\<close> and \<^verbatim>\<open>func_next_\<close>. The step function receives
  \<^verbatim>\<open>actual_\<close> by reference: it returns the value to yield and leaves the new position in
  \<^verbatim>\<open>actual_\<close>, so it is a function from the position to the pair of both. The two callables
  of a range are taken to have no members of their own.\<close>

record 't range_iterator =
  actual :: 't
  is_last :: "'t \<Rightarrow> bool"
  func_next :: "'t \<Rightarrow> 't \<times> 't"

definition range_next :: "('t range_iterator, 't) next_fn" where
  "range_next r =
     (if is_last r (actual r) then Some (None, r)
      else (case func_next r (actual r) of (v, a') \<Rightarrow> Some (Some v, r\<lparr>actual := a'\<rparr>)))"

section \<open>iterator\_wrapper\<close>

text \<open>Member \<^verbatim>\<open>iterator_\<close>. The chain methods are member functions of the wrapper they are
  called on: each returns the new wrapper together with the wrapper it was called on, as
  the call leaves it. The constructors of the decorators take the inner iterator and the
  callable by value.\<close>

record 'i iterator_wrapper =
  iterator :: 'i

definition wrapper_map ::
  "'f \<Rightarrow> 'i iterator_wrapper \<Rightarrow> ('f, 'i) map_iterator iterator_wrapper \<times> 'i iterator_wrapper" where
  "wrapper_map f w = (\<lparr>iterator = \<lparr>map_func = f, map_base = iterator w\<rparr>\<rparr>, w)"

definition wrapper_filter ::
  "'f \<Rightarrow> 'i iterator_wrapper \<Rightarrow> ('f, 'i) filter_iterator iterator_wrapper \<times> 'i iterator_wrapper" where
  "wrapper_filter f w = (\<lparr>iterator = \<lparr>filter_func = f, filter_base = iterator w\<rparr>\<rparr>, w)"

definition wrapper_take ::
  "size_t \<Rightarrow> 'i iterator_wrapper \<Rightarrow> 'i take_iterator iterator_wrapper \<times> 'i iterator_wrapper" where
  "wrapper_take num_elems w = (\<lparr>iterator = \<lparr>num = num_elems, take_base = iterator w\<rparr>\<rparr>, w)"

definition wrapper_take_while ::
  "'f \<Rightarrow> 'i iterator_wrapper
     \<Rightarrow> ('f, 'i) take_while_iterator iterator_wrapper \<times> 'i iterator_wrapper" where
  "wrapper_take_while f w =
     (\<lparr>iterator = \<lparr>test_func = f, tw_base = iterator w, ended = False\<rparr>\<rparr>, w)"

text \<open>\<^verbatim>\<open>each\<close> calls \<^verbatim>\<open>next\<close> until it returns empty and calls \<^verbatim>\<open>f\<close> on every value; the
  result of \<^verbatim>\<open>f\<close> is dropped. The loop may run forever. The model returns the wrapper and
  the callable as the loop leaves them.\<close>

partial_function (option) each ::
  "('f, 'a, 'r) call_fn \<Rightarrow> ('i, 'a) next_fn \<Rightarrow> 'i iterator_wrapper \<Rightarrow> 'f
     \<Rightarrow> ('i iterator_wrapper \<times> 'f) option" where
  "each call nxt w f =
     (case nxt (iterator w) of
        None \<Rightarrow> None
      | Some (None, i') \<Rightarrow> Some (w\<lparr>iterator := i'\<rparr>, f)
      | Some (Some v, i') \<Rightarrow> each call nxt (w\<lparr>iterator := i'\<rparr>) (snd (call v f)))"

declare each.simps [code]

section \<open>Entry points\<close>

definition from_generator :: "'f \<Rightarrow> 'f generate_iterator iterator_wrapper" where
  "from_generator f = \<lparr>iterator = \<lparr>gen_func = f\<rparr>\<rparr>"

text \<open>The three overloads of \<^verbatim>\<open>range\<close>: with a predicate and a step function, with an end
  value, and with an end value and a step function. The default step function is
  \<^verbatim>\<open>[](T& v) { return v++; }\<close>: it returns the position and leaves the position
  incremented. The type \<^verbatim>\<open>T\<close> is any type with \<^verbatim>\<open>==\<close> and \<^verbatim>\<open>++\<close>; the claims about
  \<^verbatim>\<open>range(0, 5)\<close> and \<^verbatim>\<open>range(0, 1000000)\<close> take the 32-bit patterns of \<^verbatim>\<open>int\<close>, which
  these ranges never overflow.\<close>

definition range_last ::
  "'t \<Rightarrow> ('t \<Rightarrow> bool) \<Rightarrow> ('t \<Rightarrow> 't \<times> 't) \<Rightarrow> 't range_iterator iterator_wrapper" where
  "range_last begin last_func next_func =
     \<lparr>iterator = \<lparr>actual = begin, is_last = last_func, func_next = next_func\<rparr>\<rparr>"

definition range_end :: "'t::{plus,one} \<Rightarrow> 't \<Rightarrow> 't range_iterator iterator_wrapper" where
  "range_end begin end' = range_last begin (\<lambda>v. v = end') (\<lambda>v. (v, v + 1))"

definition range_end_step ::
  "'t \<Rightarrow> 't \<Rightarrow> ('t \<Rightarrow> 't \<times> 't) \<Rightarrow> 't range_iterator iterator_wrapper" where
  "range_end_step begin end' next_func = range_last begin (\<lambda>v. v = end') next_func"

section \<open>Clients, test iterators and test callables\<close>

text \<open>A client that calls \<^verbatim>\<open>next\<close> \<open>k\<close> times in a row: the list of the \<open>k\<close> results and
  the iterator after the last call, or \<open>None\<close> when one of the calls does not return.\<close>

fun pulls :: "('s, 'a) next_fn \<Rightarrow> nat \<Rightarrow> 's \<Rightarrow> ('a option list \<times> 's) option" where
  "pulls nxt 0 s = Some ([], s)"
| "pulls nxt (Suc k) s =
     (case nxt s of
        None \<Rightarrow> None
      | Some (v, s') \<Rightarrow>
          (case pulls nxt k s' of
             None \<Rightarrow> None
           | Some (vs, s'') \<Rightarrow> Some (v # vs, s'')))"

text \<open>The present values of a list of results, in order.\<close>

fun present :: "'a option list \<Rightarrow> 'a list" where
  "present [] = []"
| "present (None # vs) = present vs"
| "present (Some x # vs) = x # present vs"

text \<open>An iterator over a finite sequence held in a list: \<^verbatim>\<open>next\<close> returns the head and
  keeps the tail, and returns empty on the empty list.\<close>

fun list_next :: "('a list, 'a) next_fn" where
  "list_next [] = Some (None, [])"
| "list_next (x # xs) = Some (Some x, xs)"

text \<open>An iterator that plays back a given list of results, empty ones included, and
  returns empty after the last. It may return a value after it has returned empty.\<close>

fun script_next :: "('a option list, 'a) next_fn" where
  "script_next [] = Some (None, [])"
| "script_next (v # vs) = Some (v, vs)"

text \<open>An iterator that never returns from \<^verbatim>\<open>next\<close>.\<close>

definition stuck_next :: "('s, 'a) next_fn" where
  "stuck_next s = None"

text \<open>Any iterator with a counter of the calls of its \<^verbatim>\<open>next\<close> beside it.\<close>

fun counting :: "('s, 'a) next_fn \<Rightarrow> ('s \<times> nat, 'a) next_fn" where
  "counting nxt (s, c) =
     (case nxt s of None \<Rightarrow> None | Some (v, s') \<Rightarrow> Some (v, (s', Suc c)))"

text \<open>A callable without members of its own is the function itself, unchanged by a call.\<close>

definition pure_call :: "('a \<Rightarrow> 'r, 'a, 'r) call_fn" where
  "pure_call v f = (f v, f)"

text \<open>A callable that computes \<open>g\<close> and appends every argument it is called with to a
  list it holds: the list is the record of its invocations.\<close>

definition logged :: "('a \<Rightarrow> 'r) \<Rightarrow> ('a list, 'a, 'r) call_fn" where
  "logged g v log = (g v, log @ [v])"

text \<open>The position of a range after \<open>j\<close> calls of the step function.\<close>

definition position :: "('t \<Rightarrow> 't \<times> 't) \<Rightarrow> nat \<Rightarrow> 't \<Rightarrow> 't" where
  "position step j b = ((\<lambda>a. snd (step a)) ^^ j) b"

section \<open>Lemmas on clients and iterators\<close>

subsection \<open>Repeated calls and \<open>each\<close>\<close>

lemma pulls_add:
  "pulls nxt (j + k) s =
     (case pulls nxt j s of None \<Rightarrow> None
      | Some (vs, s') \<Rightarrow> (case pulls nxt k s' of None \<Rightarrow> None | Some (ws, s'') \<Rightarrow> Some (vs @ ws, s'')))"
  by (induction j arbitrary: s) (auto split: option.splits)

lemma pulls_fixed: "nxt s = Some (None, s) \<Longrightarrow> pulls nxt k s = Some (replicate k None, s)"
  by (induction k) auto

lemma each_present:
  "pulls nxt (length xs) (iterator w) = Some (map Some xs, s1) \<Longrightarrow> nxt s1 = Some (None, s2)
    \<Longrightarrow> each call nxt w f = Some (w\<lparr>iterator := s2\<rparr>, fold (\<lambda>x f. snd (call x f)) xs f)"
proof (induction xs arbitrary: w f)
  case Nil
  then show ?case by (subst each.simps) simp
next
  case (Cons x xs)
  from Cons.prems(1) obtain s' where n: "nxt (iterator w) = Some (Some x, s')"
    and p: "pulls nxt (length xs) s' = Some (map Some xs, s1)"
    by (auto split: option.splits)
  have "each call nxt (w\<lparr>iterator := s'\<rparr>) (snd (call x f))
      = Some (w\<lparr>iterator := s'\<rparr>\<lparr>iterator := s2\<rparr>, fold (\<lambda>x f. snd (call x f)) xs (snd (call x f)))"
    by (rule Cons.IH) (use p Cons.prems(2) in simp_all)
  then show ?case using n by (subst each.simps) simp
qed

lemma each_returns_bound:
  fixes call :: "'c \<Rightarrow> 'd \<Rightarrow> 'e \<times> 'd" and nxt :: "'b \<Rightarrow> ('c option \<times> 'b) option"
  assumes y: "each call nxt w f = Some y"
  shows "\<exists>k. \<forall>xs s'. pulls nxt k (iterator w) \<noteq> Some (map Some xs, s')"
proof (rule each.raw_induct
    [where P = "\<lambda>call nxt w f y. \<exists>k. \<forall>xs s'. pulls nxt k (iterator w) \<noteq> Some (map Some xs, s')"
       and call = call and nxt = nxt and w = w and f = f and y = y])
  show "each call nxt w f = Some y" by (rule y)
next
  fix each' :: "('c \<Rightarrow> 'd \<Rightarrow> 'e \<times> 'd) \<Rightarrow> ('b \<Rightarrow> ('c option \<times> 'b) option)
      \<Rightarrow> 'b iterator_wrapper \<Rightarrow> 'd \<Rightarrow> ('b iterator_wrapper \<times> 'd) option"
  fix call :: "'c \<Rightarrow> 'd \<Rightarrow> 'e \<times> 'd" and nxt :: "'b \<Rightarrow> ('c option \<times> 'b) option"
    and w :: "'b iterator_wrapper" and f :: 'd and y
  assume IH: "\<And>call nxt w f y. each' call nxt w f = Some y
      \<Longrightarrow> \<exists>k. \<forall>xs s'. pulls nxt k (iterator w) \<noteq> Some (map Some xs, s')"
    and eq: "(case nxt (iterator w) of None \<Rightarrow> None
        | Some (None, i') \<Rightarrow> Some (w\<lparr>iterator := i'\<rparr>, f)
        | Some (Some v, i') \<Rightarrow> each' call nxt (w\<lparr>iterator := i'\<rparr>) (snd (call v f))) = Some y"
  show "\<exists>k. \<forall>xs s'. pulls nxt k (iterator w) \<noteq> Some (map Some xs, s')"
  proof (cases "nxt (iterator w)")
    case None
    then have "\<forall>xs s'. pulls nxt 1 (iterator w) \<noteq> Some (map Some xs, s')" by simp
    then show ?thesis by blast
  next
    case (Some a)
    obtain v s1 where a: "a = (v, s1)" by (cases a)
    show ?thesis
    proof (cases v)
      case None
      with Some a have "\<forall>xs s'. pulls nxt 1 (iterator w) \<noteq> Some (map Some xs, s')"
        by (auto split: option.splits)
      then show ?thesis by blast
    next
      case (Some x)
      with \<open>nxt (iterator w) = Some a\<close> a eq
      have "each' call nxt (w\<lparr>iterator := s1\<rparr>) (snd (call x f)) = Some y" by simp
      from IH[OF this] obtain k where
        k: "\<forall>xs s'. pulls nxt k s1 \<noteq> Some (map Some xs, s')" by auto
      have "\<forall>xs s'. pulls nxt (Suc k) (iterator w) \<noteq> Some (map Some xs, s')"
      proof (intro allI notI)
        fix xs s' assume h: "pulls nxt (Suc k) (iterator w) = Some (map Some xs, s')"
        with \<open>nxt (iterator w) = Some a\<close> a Some
        obtain vs where "pulls nxt k s1 = Some (vs, s')" "map Some xs = Some x # vs"
          by (auto split: option.splits)
        then have "pulls nxt k s1 = Some (map Some (tl xs), s')" by (cases xs) auto
        with k show False by blast
      qed
      then show ?thesis by blast
    qed
  qed
qed

lemma each_diverges:
  assumes "\<And>k. \<exists>xs s'. pulls nxt k (iterator w) = Some (map Some xs, s')"
  shows "each call nxt w f = None"
proof (cases "each call nxt w f")
  case None
  then show ?thesis .
next
  case (Some y)
  from each_returns_bound[OF this] assms show ?thesis by blast
qed

subsection \<open>The decorators over arbitrary and list-backed inner iterators\<close>

lemma pulls_counting:
  "pulls (counting nxt) k (s, c) =
     (case pulls nxt k s of None \<Rightarrow> None | Some (vs, s') \<Rightarrow> Some (vs, (s', c + k)))"
  by (induction k arbitrary: s c) (auto split: option.splits)

lemma take_next_zero: "num t = 0 \<Longrightarrow> take_next nxt t = Some (None, t)"
  by (simp add: take_next_def)

lemma pulls_take:
  "pulls (take_next nxt) k \<lparr>num = n, take_base = s\<rparr> =
     (case pulls nxt (min k (unat n)) s of
        None \<Rightarrow> None
      | Some (vs, s') \<Rightarrow>
          Some (vs @ replicate (k - unat n) None,
                \<lparr>num = n - of_nat (min k (unat n)), take_base = s'\<rparr>))"
proof (induction k arbitrary: n s)
  case 0
  show ?case by simp
next
  case (Suc k)
  show ?case
  proof (cases "n = 0")
    case True
    then show ?thesis using Suc.IH [of 0 s] by (simp add: take_next_def)
  next
    case False
    then obtain m where m: "unat n = Suc m"
      by (metis not0_implies_Suc unat_eq_0)
    then have m1: "unat (n - 1) = m" using False by (simp add: unat_minus_one)
    have mn: "min (Suc k) (unat n) = Suc (min k m)" using m by simp
    show ?thesis
    proof (cases "nxt s")
      case None
      then show ?thesis using False mn by (simp add: take_next_def)
    next
      case (Some a)
      obtain v b' where a: "a = (v, b')" by (cases a)
      show ?thesis using False Some a mn m m1 Suc.IH [of "n - 1" b']
        by (simp add: take_next_def split: option.splits)
    qed
  qed
qed

lemma take_while_next_ended: "ended t \<Longrightarrow> take_while_next call nxt t = Some (None, t)"
  by (simp add: take_while_next_def)

lemma take_while_next_None:
  "take_while_next call nxt t = Some (None, t') \<Longrightarrow> ended t'"
  by (auto simp: take_while_next_def split: if_splits option.splits prod.splits)

lemma each_take_while_list:
  "each call (take_while_next pure_call list_next)
      \<lparr>iterator = \<lparr>test_func = p, tw_base = S, ended = False\<rparr>\<rparr> f =
   Some (\<lparr>iterator = \<lparr>test_func = p, tw_base = drop 1 (dropWhile p S), ended = True\<rparr>\<rparr>,
         fold (\<lambda>x f. snd (call x f)) (takeWhile p S) f)"
proof (induction S arbitrary: f)
  case Nil
  show ?case
    by (subst each.simps) (simp add: take_while_next_def)
next
  case (Cons x S)
  show ?case
  proof (cases "p x")
    case True
    then have step: "take_while_next pure_call list_next
        \<lparr>test_func = p, tw_base = x # S, ended = False\<rparr> =
        Some (Some x, \<lparr>test_func = p, tw_base = S, ended = False\<rparr>)"
      by (simp add: take_while_next_def pure_call_def)
    show ?thesis using True
      by (subst each.simps) (simp add: step Cons.IH)
  next
    case False
    have step: "take_while_next pure_call list_next
        \<lparr>test_func = p, tw_base = x # S, ended = False\<rparr> =
        Some (None, \<lparr>test_func = p, tw_base = S, ended = True\<rparr>)"
      using False by (simp add: take_while_next_def pure_call_def)
    show ?thesis using False
      by (subst each.simps) (simp add: step)
  qed
qed

lemma filter_next_list_Nil:
  "filter_next call list_next \<lparr>filter_func = p, filter_base = []\<rparr> =
     Some (None, \<lparr>filter_func = p, filter_base = []\<rparr>)"
  by (subst filter_next.simps) simp

lemma filter_next_list_Cons:
  "filter_next pure_call list_next \<lparr>filter_func = p, filter_base = x # S\<rparr> =
     (if p x then Some (Some x, \<lparr>filter_func = p, filter_base = S\<rparr>)
      else filter_next pure_call list_next \<lparr>filter_func = p, filter_base = S\<rparr>)"
  by (subst filter_next.simps) (simp add: pure_call_def)

lemma filter_next_list:
  "filter_next pure_call list_next \<lparr>filter_func = p, filter_base = S\<rparr> =
     Some (find p S, \<lparr>filter_func = p, filter_base = drop 1 (dropWhile (\<lambda>x. \<not> p x) S)\<rparr>)"
  by (induction S) (simp_all add: filter_next_list_Nil filter_next_list_Cons)

lemma each_filter_list:
  "each call (filter_next pure_call list_next)
      \<lparr>iterator = \<lparr>filter_func = p, filter_base = S\<rparr>\<rparr> f =
   Some (\<lparr>iterator = \<lparr>filter_func = p, filter_base = []\<rparr>\<rparr>,
         fold (\<lambda>x f. snd (call x f)) (filter p S) f)"
proof (induction S arbitrary: f)
  case Nil
  show ?case by (subst each.simps) (simp add: filter_next_list_Nil)
next
  case (Cons x S)
  show ?case
  proof (cases "p x")
    case True
    then show ?thesis
      by (subst each.simps) (simp add: filter_next_list_Cons Cons.IH)
  next
    case False
    have "each call (filter_next pure_call list_next)
        \<lparr>iterator = \<lparr>filter_func = p, filter_base = x # S\<rparr>\<rparr> f =
      each call (filter_next pure_call list_next)
        \<lparr>iterator = \<lparr>filter_func = p, filter_base = S\<rparr>\<rparr> f"
      by (subst each.simps, subst (2) each.simps)
        (simp add: filter_next_list False split: option.splits)
    then show ?thesis using False Cons.IH by simp
  qed
qed

lemma pulls_map_logged:
  "pulls (map_next (logged g) nxt) k \<lparr>map_func = log, map_base = s\<rparr> =
     (case pulls nxt k s of
        None \<Rightarrow> None
      | Some (vs, s') \<Rightarrow>
          Some (map (map_option g) vs, \<lparr>map_func = log @ present vs, map_base = s'\<rparr>))"
proof (induction k arbitrary: log s)
  case 0
  show ?case by simp
next
  case (Suc k)
  show ?case
  proof (cases "nxt s")
    case None
    then show ?thesis by (simp add: map_next_def)
  next
    case (Some a)
    obtain v b' where a: "a = (v, b')" by (cases a)
    show ?thesis
    proof (cases v)
      case None
      then show ?thesis using Some a Suc.IH [of log b']
        by (simp add: map_next_def split: option.splits)
    next
      case (Some x)
      then show ?thesis using \<open>nxt s = Some a\<close> a Suc.IH [of "log @ [x]" b']
        by (simp add: map_next_def logged_def split: option.splits)
    qed
  qed
qed

lemma pulls_list:
  "pulls list_next k S = Some (map Some (take k S) @ replicate (k - length S) None, drop k S)"
proof (induction k arbitrary: S)
  case 0
  show ?case by simp
next
  case (Suc k)
  show ?case using Suc.IH by (cases S) (simp_all add: Suc.IH)
qed

lemma each_map_list:
  "each call (map_next pure_call list_next) \<lparr>iterator = \<lparr>map_func = g, map_base = S\<rparr>\<rparr> f =
   Some (\<lparr>iterator = \<lparr>map_func = g, map_base = []\<rparr>\<rparr>,
         fold (\<lambda>x f. snd (call x f)) (map g S) f)"
proof (induction S arbitrary: f)
  case Nil
  show ?case by (subst each.simps) (simp add: map_next_def)
next
  case (Cons x S)
  have step: "map_next pure_call list_next \<lparr>map_func = g, map_base = x # S\<rparr> =
      Some (Some (g x), \<lparr>map_func = g, map_base = S\<rparr>)"
    by (simp add: map_next_def pure_call_def)
  show ?case
    by (subst each.simps) (simp add: step Cons.IH)
qed

lemma position_Suc: "position step (Suc j) b = snd (step (position step j b))"
  by (simp add: position_def)

lemma position_0: "position step 0 b = b"
  by (simp add: position_def)

lemma pulls_range:
  "(\<And>j. j < k \<Longrightarrow> \<not> lastf (position step j b)) \<Longrightarrow>
   pulls range_next k \<lparr>actual = b, is_last = lastf, func_next = step\<rparr> =
     Some (map (\<lambda>j. Some (fst (step (position step j b)))) [0..<k],
           \<lparr>actual = position step k b, is_last = lastf, func_next = step\<rparr>)"
proof (induction k)
  case 0
  show ?case by (simp add: position_0)
next
  case (Suc k)
  have IH: "pulls range_next k \<lparr>actual = b, is_last = lastf, func_next = step\<rparr> =
     Some (map (\<lambda>j. Some (fst (step (position step j b)))) [0..<k],
           \<lparr>actual = position step k b, is_last = lastf, func_next = step\<rparr>)"
    by (rule Suc.IH) (simp add: Suc.prems)
  have nl: "\<not> lastf (position step k b)" by (simp add: Suc.prems)
  have one: "pulls range_next 1 \<lparr>actual = position step k b, is_last = lastf, func_next = step\<rparr>
     = Some ([Some (fst (step (position step k b)))],
        \<lparr>actual = position step (Suc k) b, is_last = lastf, func_next = step\<rparr>)"
    using nl by (simp add: range_next_def position_Suc split: prod.splits)
  have "pulls range_next (k + 1) \<lparr>actual = b, is_last = lastf, func_next = step\<rparr> =
     Some (map (\<lambda>j. Some (fst (step (position step j b)))) [0..<k]
             @ [Some (fst (step (position step k b)))],
           \<lparr>actual = position step (Suc k) b, is_last = lastf, func_next = step\<rparr>)"
    by (simp only: pulls_add IH one option.case prod.case)
  then show ?case by simp
qed

lemma each_take_list:
  "each call (take_next list_next) \<lparr>iterator = \<lparr>num = n, take_base = S\<rparr>\<rparr> f =
   Some (\<lparr>iterator = \<lparr>num = n - of_nat (min (unat n) (Suc (length S))),
                        take_base = drop (unat n) S\<rparr>\<rparr>,
         fold (\<lambda>x f. snd (call x f)) (take (unat n) S) f)"
proof (induction S arbitrary: n f)
  case Nil
  show ?case
  proof (cases "n = 0")
    case True
    then show ?thesis by (subst each.simps) (simp add: take_next_def)
  next
    case False
    then obtain m where m: "unat n = Suc m" by (metis not0_implies_Suc unat_eq_0)
    show ?thesis using False m by (subst each.simps) (simp add: take_next_def)
  qed
next
  case (Cons x S)
  show ?case
  proof (cases "n = 0")
    case True
    then show ?thesis by (subst each.simps) (simp add: take_next_def)
  next
    case False
    then obtain m where m: "unat n = Suc m" by (metis not0_implies_Suc unat_eq_0)
    then have m1: "unat (n - 1) = m" using False by (simp add: unat_minus_one)
    have step: "take_next list_next \<lparr>num = n, take_base = x # S\<rparr> =
        Some (Some x, \<lparr>num = n - 1, take_base = S\<rparr>)"
      using False by (simp add: take_next_def)
    show ?thesis using m m1
      by (subst each.simps) (simp add: step Cons.IH)
  qed
qed

lemma each_take_while_general:
  assumes "pulls nxt (length xs) s = Some (map Some xs, s1)"
    and "\<forall>x\<in>set xs. p x"
    and "nxt s1 = Some (v, s2)"
    and "\<forall>x. v = Some x \<longrightarrow> \<not> p x"
  shows "each call (take_while_next pure_call nxt)
      \<lparr>iterator = \<lparr>test_func = p, tw_base = s, ended = False\<rparr>\<rparr> f =
    Some (\<lparr>iterator = \<lparr>test_func = p, tw_base = s2, ended = True\<rparr>\<rparr>,
          fold (\<lambda>x f. snd (call x f)) xs f)"
  using assms(1,2)
proof (induction xs arbitrary: s f)
  case Nil
  then have s: "s1 = s" by simp
  have step: "take_while_next pure_call nxt \<lparr>test_func = p, tw_base = s, ended = False\<rparr> =
      Some (None, \<lparr>test_func = p, tw_base = s2, ended = True\<rparr>)"
    using assms(3,4) s by (cases v) (simp_all add: take_while_next_def pure_call_def)
  show ?case by (subst each.simps) (simp add: step)
next
  case (Cons x xs)
  from Cons.prems(1) obtain s' where n: "nxt s = Some (Some x, s')"
    and p: "pulls nxt (length xs) s' = Some (map Some xs, s1)"
    by (auto split: option.splits)
  have step: "take_while_next pure_call nxt \<lparr>test_func = p, tw_base = s, ended = False\<rparr> =
      Some (Some x, \<lparr>test_func = p, tw_base = s', ended = False\<rparr>)"
    using n Cons.prems(2) by (simp add: take_while_next_def pure_call_def)
  have IH: "each call (take_while_next pure_call nxt)
      \<lparr>iterator = \<lparr>test_func = p, tw_base = s', ended = False\<rparr>\<rparr> (snd (call x f)) =
    Some (\<lparr>iterator = \<lparr>test_func = p, tw_base = s2, ended = True\<rparr>\<rparr>,
          fold (\<lambda>x f. snd (call x f)) xs (snd (call x f)))"
    by (rule Cons.IH) (use p Cons.prems(2) in simp_all)
  show ?case by (subst each.simps) (simp add: step IH)
qed

lemma filter_next_empty:
  "nxt s = Some (None, s') \<Longrightarrow>
   filter_next call nxt \<lparr>filter_func = p, filter_base = s\<rparr> =
     Some (None, \<lparr>filter_func = p, filter_base = s'\<rparr>)"
  by (subst filter_next.simps) simp

lemma filter_next_value:
  "nxt s = Some (Some x, s') \<Longrightarrow>
   filter_next pure_call nxt \<lparr>filter_func = p, filter_base = s\<rparr> =
     (if p x then Some (Some x, \<lparr>filter_func = p, filter_base = s'\<rparr>)
      else filter_next pure_call nxt \<lparr>filter_func = p, filter_base = s'\<rparr>)"
  by (subst filter_next.simps) (simp add: pure_call_def)

lemma filter_next_skips:
  assumes "pulls nxt (length rs) s = Some (map Some rs, s1)"
    and "\<forall>x\<in>set rs. \<not> p x"
    and "nxt s1 = Some (v, s2)"
    and "\<forall>x. v = Some x \<longrightarrow> p x"
  shows "filter_next pure_call nxt \<lparr>filter_func = p, filter_base = s\<rparr> =
    Some (v, \<lparr>filter_func = p, filter_base = s2\<rparr>)"
  using assms(1,2)
proof (induction rs arbitrary: s)
  case Nil
  then have s: "s1 = s" by simp
  show ?case
  proof (cases v)
    case None
    then show ?thesis using assms(3) s by (simp add: filter_next_empty)
  next
    case (Some x)
    then have n: "nxt s = Some (Some x, s2)" and px: "p x" using assms(3,4) s by simp_all
    have "filter_next pure_call nxt \<lparr>filter_func = p, filter_base = s\<rparr> =
     (if p x then Some (Some x, \<lparr>filter_func = p, filter_base = s2\<rparr>)
      else filter_next pure_call nxt \<lparr>filter_func = p, filter_base = s2\<rparr>)"
      using n by (rule filter_next_value)
    then show ?thesis using px Some by simp
  qed
next
  case (Cons x rs)
  from Cons.prems(1) obtain s' where n: "nxt s = Some (Some x, s')"
    and p: "pulls nxt (length rs) s' = Some (map Some rs, s1)"
    by (auto split: option.splits)
  have "filter_next pure_call nxt \<lparr>filter_func = p, filter_base = s'\<rparr> =
    Some (v, \<lparr>filter_func = p, filter_base = s2\<rparr>)"
    by (rule Cons.IH) (use p Cons.prems(2) in simp_all)
  moreover have "filter_next pure_call nxt \<lparr>filter_func = p, filter_base = s\<rparr> =
     (if p x then Some (Some x, \<lparr>filter_func = p, filter_base = s'\<rparr>)
      else filter_next pure_call nxt \<lparr>filter_func = p, filter_base = s'\<rparr>)"
    using n by (rule filter_next_value)
  ultimately show ?case using Cons.prems(2) by simp
qed

lemma each_filter_general:
  assumes "pulls nxt (length xs) s = Some (map Some xs, s1)"
    and "nxt s1 = Some (None, s2)"
  shows "each call (filter_next pure_call nxt)
      \<lparr>iterator = \<lparr>filter_func = p, filter_base = s\<rparr>\<rparr> f =
    Some (\<lparr>iterator = \<lparr>filter_func = p, filter_base = s2\<rparr>\<rparr>,
          fold (\<lambda>x f. snd (call x f)) (filter p xs) f)"
  using assms(1)
proof (induction xs arbitrary: s f)
  case Nil
  then have s: "s1 = s" by simp
  show ?case using assms(2) s
    by (subst each.simps) (simp add: filter_next_empty)
next
  case (Cons x xs)
  from Cons.prems(1) obtain s' where n: "nxt s = Some (Some x, s')"
    and p: "pulls nxt (length xs) s' = Some (map Some xs, s1)"
    by (auto split: option.splits)
  have step: "filter_next pure_call nxt \<lparr>filter_func = p, filter_base = s\<rparr> =
     (if p x then Some (Some x, \<lparr>filter_func = p, filter_base = s'\<rparr>)
      else filter_next pure_call nxt \<lparr>filter_func = p, filter_base = s'\<rparr>)"
    using n by (rule filter_next_value)
  show ?case
  proof (cases "p x")
    case True
    have IH: "each call (filter_next pure_call nxt)
        \<lparr>iterator = \<lparr>filter_func = p, filter_base = s'\<rparr>\<rparr> (snd (call x f)) =
      Some (\<lparr>iterator = \<lparr>filter_func = p, filter_base = s2\<rparr>\<rparr>,
            fold (\<lambda>x f. snd (call x f)) (filter p xs) (snd (call x f)))"
      by (rule Cons.IH) (rule p)
    show ?thesis using True
      by (subst each.simps) (simp add: step IH)
  next
    case False
    have IH: "each call (filter_next pure_call nxt)
        \<lparr>iterator = \<lparr>filter_func = p, filter_base = s'\<rparr>\<rparr> f =
      Some (\<lparr>iterator = \<lparr>filter_func = p, filter_base = s2\<rparr>\<rparr>,
            fold (\<lambda>x f. snd (call x f)) (filter p xs) f)"
      by (rule Cons.IH) (rule p)
    have "each call (filter_next pure_call nxt)
        \<lparr>iterator = \<lparr>filter_func = p, filter_base = s\<rparr>\<rparr> f =
      each call (filter_next pure_call nxt)
        \<lparr>iterator = \<lparr>filter_func = p, filter_base = s'\<rparr>\<rparr> f"
      by (subst each.simps, subst (2) each.simps)
        (simp add: step False split: option.splits)
    then show ?thesis using False IH by simp
  qed
qed

lemma present_values: "present (map Some xs @ replicate j None) = xs"
proof (induction xs)
  case Nil
  show ?case by (induction j) simp_all
next
  case (Cons x xs)
  then show ?case by simp
qed

lemma position_increment:
  "position (\<lambda>v. (v, v + 1)) j (b :: 'a :: semiring_1) = b + of_nat j"
  by (induction j) (simp_all add: position_def ac_simps)

lemma word32_below_million:
  "j < 1000000 \<Longrightarrow> (of_nat j :: 32 word) \<noteq> 1000000"
proof
  assume j: "j < 1000000" and e: "(of_nat j :: 32 word) = 1000000"
  have "unat (of_nat j :: 32 word) = j" using j by (simp add: unat_of_nat)
  moreover have "unat (1000000 :: 32 word) = 1000000" by simp
  ultimately show False using e j by simp
qed

lemma pulls_range_million:
  "pulls range_next k
     \<lparr>actual = (0 :: 32 word), is_last = (\<lambda>v. v = 1000000), func_next = (\<lambda>v. (v, v + 1))\<rparr> =
   Some (map (Some \<circ> of_nat) [0..<min k 1000000] @ replicate (k - 1000000) None,
     \<lparr>actual = of_nat (min k 1000000), is_last = (\<lambda>v. v = 1000000),
        func_next = (\<lambda>v. (v, v + 1))\<rparr>)"
proof -
  let ?r = "\<lambda>a. \<lparr>actual = (a :: 32 word), is_last = (\<lambda>v. v = 1000000),
    func_next = (\<lambda>v. (v, v + 1))\<rparr>"
  have upto: "pulls range_next j (?r 0) = Some (map (Some \<circ> of_nat) [0..<j], ?r (of_nat j))"
    if "j \<le> 1000000" for j
    using pulls_range [of j "\<lambda>v. v = 1000000" "\<lambda>v. (v, v + 1)" "0 :: 32 word"] that
    by (simp add: position_increment word32_below_million comp_def)
  show ?thesis
  proof (cases "k \<le> 1000000")
    case True
    then show ?thesis using upto [of k] by (simp add: min_def)
  next
    case False
    then have k: "k = 1000000 + (k - 1000000)" by simp
    have fixed: "pulls range_next (k - 1000000) (?r 1000000) =
        Some (replicate (k - 1000000) None, ?r 1000000)"
      by (rule pulls_fixed) (simp add: range_next_def)
    have "pulls range_next (1000000 + (k - 1000000)) (?r 0) =
        Some (map (Some \<circ> of_nat) [0..<1000000] @ replicate (k - 1000000) None, ?r 1000000)"
      using upto [of 1000000] fixed by (simp only: pulls_add) simp
    then show ?thesis using False k by (simp add: min_def)
  qed
qed

subsection \<open>A range that steps by two\<close>

lemma position_add_two:
  "position (\<lambda>v. (v, v + 2)) j (0 :: 32 word) = 2 * of_nat j"
  by (induction j) (simp_all add: position_def)

lemma word32_two_times_not_five: "2 * (x :: 32 word) \<noteq> 5"
proof
  assume "2 * x = 5"
  moreover have "even (2 * x)" by simp
  moreover have "odd (5 :: 32 word)" by simp
  ultimately show False by simp
qed

section \<open>The claims\<close>

subsection \<open>C1: sticky termination of take and take\_while\<close>

text \<open>
  C1 as stated fails for \<^verbatim>\<open>take_iterator\<close>. A take instance with remaining count 2 over an
  inner iterator that returns empty and then the value 7 returns empty on its first call
  (the count goes to 1) and the value 7 on its second call: \<^verbatim>\<open>take_iterator::next\<close>
  forwards to the inner iterator whenever the count is not zero and keeps no flag. The
  inner iterator here is a class of the caller's, which the template parameter
  \<^verbatim>\<open>BaseIterator\<close> admits.
\<close>

theorem take_not_sticky_counterexample:
  "take_next script_next \<lparr>num = 2, take_base = [None, Some (7 :: int)]\<rparr> =
     Some (None, \<lparr>num = 1, take_base = [Some 7]\<rparr>) \<and>
   take_next script_next \<lparr>num = 1, take_base = [Some (7 :: int)]\<rparr> =
     Some (Some 7, \<lparr>num = 0, take_base = []\<rparr>)"
  by (simp add: take_next_def)

text \<open>
  C1, amended: for every take\_while instance, once a call of \<^verbatim>\<open>next\<close> returns empty,
  every later call returns empty and leaves the instance as it is, whatever the inner
  iterator could still produce. For every take instance, the same holds once a call of
  \<^verbatim>\<open>next\<close> has returned empty with the remaining count at zero. A take instance that
  has returned empty with the remaining count still positive forwards its next call to
  the inner iterator: it decrements the count and returns what the inner \<^verbatim>\<open>next\<close>
  returns, a value included.
\<close>

theorem sticky_termination:
  "(take_while_next call nxt tw = Some (None, tw') \<longrightarrow>
      pulls (take_while_next call nxt) k tw' = Some (replicate k None, tw')) \<and>
   (take_next nxt' t = Some (None, t') \<and> num t' = 0 \<longrightarrow>
      pulls (take_next nxt') k t' = Some (replicate k None, t')) \<and>
   (take_next nxt' t = Some (None, t') \<and> num t' \<noteq> 0 \<longrightarrow>
      take_next nxt' t' =
        (case nxt' (take_base t') of
           None \<Rightarrow> None
         | Some (v, b') \<Rightarrow> Some (v, \<lparr>num = num t' - 1, take_base = b'\<rparr>)))"
proof (intro conjI impI)
  assume "take_while_next call nxt tw = Some (None, tw')"
  then have "ended tw'" by (rule take_while_next_None)
  then have "take_while_next call nxt tw' = Some (None, tw')" by (rule take_while_next_ended)
  then show "pulls (take_while_next call nxt) k tw' = Some (replicate k None, tw')"
    by (rule pulls_fixed)
next
  assume "take_next nxt' t = Some (None, t') \<and> num t' = 0"
  then have "take_next nxt' t' = Some (None, t')" by (simp add: take_next_zero)
  then show "pulls (take_next nxt') k t' = Some (replicate k None, t')"
    by (rule pulls_fixed)
next
  assume "take_next nxt' t = Some (None, t') \<and> num t' \<noteq> 0"
  then have "num t' \<noteq> 0" by blast
  then show "take_next nxt' t' =
      (case nxt' (take_base t') of
         None \<Rightarrow> None
       | Some (v, b') \<Rightarrow> Some (v, \<lparr>num = num t' - 1, take_base = b'\<rparr>))"
    by (simp add: take_next_def)
qed

theorem sticky_termination_witness:
  "take_while_next pure_call list_next
      \<lparr>test_func = (\<lambda>x :: int. x < 2), tw_base = [5, 1], ended = False\<rparr> =
     Some (None, \<lparr>test_func = (\<lambda>x. x < 2), tw_base = [1], ended = True\<rparr>) \<and>
   pulls (take_while_next pure_call list_next) 3
      \<lparr>test_func = (\<lambda>x :: int. x < 2), tw_base = [1], ended = True\<rparr> =
     Some ([None, None, None], \<lparr>test_func = (\<lambda>x. x < 2), tw_base = [1], ended = True\<rparr>) \<and>
   take_next list_next \<lparr>num = 0, take_base = [4, 5 :: int]\<rparr> =
     Some (None, \<lparr>num = 0, take_base = [4, 5]\<rparr>) \<and>
   pulls (take_next list_next) 3 \<lparr>num = 0, take_base = [4, 5 :: int]\<rparr> =
     Some ([None, None, None], \<lparr>num = 0, take_base = [4, 5]\<rparr>) \<and>
   take_next script_next \<lparr>num = 2, take_base = [None, Some (7 :: int)]\<rparr> =
     Some (None, \<lparr>num = 1, take_base = [Some 7]\<rparr>) \<and>
   num \<lparr>num = 1, take_base = [Some (7 :: int)]\<rparr> \<noteq> 0 \<and>
   take_next script_next \<lparr>num = 1, take_base = [Some (7 :: int)]\<rparr> =
     Some (Some 7, \<lparr>num = 0, take_base = []\<rparr>)"
proof -
  have h1: "take_while_next pure_call list_next
      \<lparr>test_func = (\<lambda>x :: int. x < 2), tw_base = [5, 1], ended = False\<rparr> =
     Some (None, \<lparr>test_func = (\<lambda>x. x < 2), tw_base = [1], ended = True\<rparr>)"
    by (simp add: take_while_next_def pure_call_def)
  have h2: "take_next list_next \<lparr>num = 0, take_base = [4, 5 :: int]\<rparr> =
     Some (None, \<lparr>num = 0, take_base = [4, 5]\<rparr>)"
    by (simp add: take_next_def)
  have z: "num \<lparr>num = 0, take_base = [4, 5 :: int]\<rparr> = 0" by simp
  have h3: "take_next script_next \<lparr>num = 2, take_base = [None, Some (7 :: int)]\<rparr> =
     Some (None, \<lparr>num = 1, take_base = [Some 7]\<rparr>)"
    by (simp add: take_next_def)
  have p: "num \<lparr>num = 1, take_base = [Some (7 :: int)]\<rparr> \<noteq> 0" by simp
  note T1 = sticky_termination [where call = pure_call and nxt = list_next
      and tw = "\<lparr>test_func = (\<lambda>x :: int. x < 2), tw_base = [5, 1], ended = False\<rparr>"
      and tw' = "\<lparr>test_func = (\<lambda>x :: int. x < 2), tw_base = [1], ended = True\<rparr>"
      and k = 3 and nxt' = list_next and t = "\<lparr>num = 0, take_base = [4, 5 :: int]\<rparr>"
      and t' = "\<lparr>num = 0, take_base = [4, 5 :: int]\<rparr>"]
  note T2 = sticky_termination [where call = pure_call and nxt = list_next
      and tw = "\<lparr>test_func = (\<lambda>x :: int. x < 2), tw_base = [5, 1], ended = False\<rparr>"
      and tw' = "\<lparr>test_func = (\<lambda>x :: int. x < 2), tw_base = [1], ended = True\<rparr>"
      and k = 3 and nxt' = script_next
      and t = "\<lparr>num = 2, take_base = [None, Some (7 :: int)]\<rparr>"
      and t' = "\<lparr>num = 1, take_base = [Some (7 :: int)]\<rparr>"]
  from T1 h1 have c1: "pulls (take_while_next pure_call list_next) 3
      \<lparr>test_func = (\<lambda>x :: int. x < 2), tw_base = [1], ended = True\<rparr> =
     Some (replicate 3 None, \<lparr>test_func = (\<lambda>x. x < 2), tw_base = [1], ended = True\<rparr>)"
    by blast
  from T1 h2 z have c2: "pulls (take_next list_next) 3 \<lparr>num = 0, take_base = [4, 5 :: int]\<rparr> =
     Some (replicate 3 None, \<lparr>num = 0, take_base = [4, 5]\<rparr>)"
    by blast
  from T2 h3 p have c3: "take_next script_next \<lparr>num = 1, take_base = [Some (7 :: int)]\<rparr> =
      (case script_next (take_base \<lparr>num = 1, take_base = [Some (7 :: int)]\<rparr>) of
         None \<Rightarrow> None
       | Some (v, b') \<Rightarrow>
           Some (v, \<lparr>num = num \<lparr>num = 1, take_base = [Some (7 :: int)]\<rparr> - 1,
             take_base = b'\<rparr>))"
    by blast
  have r: "replicate 3 None = [None, None, None]" by (simp add: numeral_3_eq_3)
  show ?thesis using h1 h2 h3 c1 c2 c3 unfolding r by simp
qed

subsection \<open>C2: take yields a prefix and pulls the inner iterator at most \<open>n\<close> times\<close>

text \<open>
  C2: for every inner iterator and every count \<open>n\<close>, the results of \<open>k\<close> calls of
  \<^verbatim>\<open>next\<close> on take(\<open>n\<close>) are the results of the first \<open>min k n\<close> calls of the inner
  \<^verbatim>\<open>next\<close>, followed by empty results; over a finite sequence \<open>S\<close>, \<^verbatim>\<open>each\<close> calls its
  function on the prefix of \<open>S\<close> of length \<open>min n |S|\<close> and on nothing else; the inner
  \<^verbatim>\<open>next\<close> has been called \<open>min k n\<close> times after \<open>k\<close> calls, so at most \<open>n\<close> times in
  total; and with the count at zero \<^verbatim>\<open>next\<close> returns empty and leaves the instance
  unchanged for any inner \<^verbatim>\<open>next\<close>, also for one that would never return, so the inner
  \<^verbatim>\<open>next\<close> is not called.
\<close>

theorem take_prefix_bounded:
  fixes nxt :: "('s, 'a) next_fn"
  shows
  "pulls (take_next nxt) k \<lparr>num = n, take_base = s\<rparr> =
     (case pulls nxt (min k (unat n)) s of
        None \<Rightarrow> None
      | Some (vs, s') \<Rightarrow>
          Some (vs @ replicate (k - unat n) None,
                \<lparr>num = n - of_nat (min k (unat n)), take_base = s'\<rparr>)) \<and>
   each call (take_next list_next) \<lparr>iterator = \<lparr>num = n, take_base = S\<rparr>\<rparr> f =
     Some (\<lparr>iterator = \<lparr>num = n - of_nat (min (unat n) (Suc (length S))),
                          take_base = drop (unat n) S\<rparr>\<rparr>,
           fold (\<lambda>x f. snd (call x f)) (take (unat n) S) f) \<and>
   length (take (unat n) S) = min (unat n) (length S) \<and>
   (pulls (take_next (counting nxt)) k \<lparr>num = n, take_base = (s, 0)\<rparr> = Some (vs, t') \<longrightarrow>
      snd (take_base t') = min k (unat n) \<and> snd (take_base t') \<le> unat n) \<and>
   (num t = 0 \<longrightarrow>
      take_next nxt t = Some (None, t) \<and>
      take_next (stuck_next :: ('s, 'a) next_fn) t = Some (None, t))"
proof (intro conjI impI)
  show "pulls (take_next nxt) k \<lparr>num = n, take_base = s\<rparr> =
     (case pulls nxt (min k (unat n)) s of
        None \<Rightarrow> None
      | Some (vs, s') \<Rightarrow>
          Some (vs @ replicate (k - unat n) None,
                \<lparr>num = n - of_nat (min k (unat n)), take_base = s'\<rparr>))"
    by (rule pulls_take)
  show "each call (take_next list_next) \<lparr>iterator = \<lparr>num = n, take_base = S\<rparr>\<rparr> f =
     Some (\<lparr>iterator = \<lparr>num = n - of_nat (min (unat n) (Suc (length S))),
                          take_base = drop (unat n) S\<rparr>\<rparr>,
           fold (\<lambda>x f. snd (call x f)) (take (unat n) S) f)"
    by (rule each_take_list)
  show "length (take (unat n) S) = min (unat n) (length S)" by (simp add: min.commute)
  {
    assume a: "pulls (take_next (counting nxt)) k \<lparr>num = n, take_base = (s, 0)\<rparr> = Some (vs, t')"
    have "pulls (take_next (counting nxt)) k \<lparr>num = n, take_base = (s, 0)\<rparr> =
      (case pulls nxt (min k (unat n)) s of
        None \<Rightarrow> None
      | Some (ws, s') \<Rightarrow>
          Some (ws @ replicate (k - unat n) None,
                \<lparr>num = n - of_nat (min k (unat n)), take_base = (s', min k (unat n))\<rparr>))"
      by (simp add: pulls_take pulls_counting split: option.splits)
    with a show c: "snd (take_base t') = min k (unat n)"
      by (auto split: option.splits)
    then show "snd (take_base t') \<le> unat n" by simp
  }
  {
    assume "num t = 0"
    then show "take_next nxt t = Some (None, t)"
      "take_next (stuck_next :: ('s, 'a) next_fn) t = Some (None, t)"
      by (simp_all add: take_next_zero)
  }
qed

theorem take_prefix_bounded_witness:
  "pulls (take_next (counting list_next)) 5 \<lparr>num = 2, take_base = ([7, 8, 9 :: int], 0)\<rparr> =
     Some ([Some 7, Some 8, None, None, None], \<lparr>num = 0, take_base = ([9], 2)\<rparr>) \<and>
   snd (take_base \<lparr>num = 0 :: size_t, take_base = ([9 :: int], 2 :: nat)\<rparr>) = min 5 (unat (2 :: size_t)) \<and>
   num \<lparr>num = 0, take_base = [9 :: int]\<rparr> = 0 \<and>
   take_next (stuck_next :: (int list, int) next_fn) \<lparr>num = 0, take_base = [9]\<rparr> =
     Some (None, \<lparr>num = 0, take_base = [9]\<rparr>)"
proof -
  have h: "pulls (take_next (counting list_next)) 5 \<lparr>num = 2, take_base = ([7, 8, 9 :: int], 0)\<rparr> =
     Some ([Some 7, Some 8, None, None, None], \<lparr>num = 0, take_base = ([9], 2)\<rparr>)"
    by (simp add: take_next_def eval_nat_numeral)
  have z: "num \<lparr>num = 0, take_base = [9 :: int]\<rparr> = 0" by simp
  show ?thesis
    using h z
      take_prefix_bounded [where nxt = list_next and k = 5 and n = 2 and s = "[7, 8, 9 :: int]"
        and vs = "[Some 7, Some 8, None, None, None]"
        and t' = "\<lparr>num = 0, take_base = ([9], 2)\<rparr>"
        and t = "\<lparr>num = 0, take_base = [9 :: int]\<rparr>"
        and call = "logged (\<lambda>_. ())" and S = "[]" and f = "[]"]
    by - (elim conjE, simp)
qed

subsection \<open>C3: take\_while yields the maximal prefix on which the predicate holds\<close>

text \<open>
  C3, for a predicate \<open>p\<close> without members of its own: let the inner iterator yield the
  values \<open>xs\<close>, all passing \<open>p\<close>, and then either empty or a value that fails \<open>p\<close>. Then \<^verbatim>\<open>each\<close> over take\_while(\<open>p\<close>) calls its
  function on exactly \<open>xs\<close>, and the inner iterator is left after the call that returned
  the failing or empty result: the failing value is consumed and not passed on. Over a
  finite sequence \<open>S\<close> the values are \<open>takeWhile p S\<close> and the inner iterator is left
  one element past that prefix. After \<^verbatim>\<open>next\<close> has returned empty, every further call
  returns empty and leaves the instance unchanged for any inner \<^verbatim>\<open>next\<close>, also for one
  that would never return, so the inner \<^verbatim>\<open>next\<close> is not called.
\<close>

theorem take_while_maximal_prefix:
  fixes nxt :: "('s, 'a) next_fn"
  shows
  "(pulls nxt (length xs) s = Some (map Some xs, s1) \<and> (\<forall>x\<in>set xs. p x) \<and>
    nxt s1 = Some (v, s2) \<and> (\<forall>x. v = Some x \<longrightarrow> \<not> p x) \<longrightarrow>
      each call (take_while_next pure_call nxt)
        \<lparr>iterator = \<lparr>test_func = p, tw_base = s, ended = False\<rparr>\<rparr> f =
      Some (\<lparr>iterator = \<lparr>test_func = p, tw_base = s2, ended = True\<rparr>\<rparr>,
            fold (\<lambda>x f. snd (call x f)) xs f)) \<and>
   each call (take_while_next pure_call list_next)
       \<lparr>iterator = \<lparr>test_func = p, tw_base = S, ended = False\<rparr>\<rparr> f =
     Some (\<lparr>iterator = \<lparr>test_func = p, tw_base = drop 1 (dropWhile p S), ended = True\<rparr>\<rparr>,
           fold (\<lambda>x f. snd (call x f)) (takeWhile p S) f) \<and>
   (take_while_next tcall nxt t = Some (None, t') \<longrightarrow>
      take_while_next tcall nxt' t' = Some (None, t') \<and>
      take_while_next tcall (stuck_next :: ('s, 'a) next_fn) t' = Some (None, t') \<and>
      pulls (take_while_next tcall nxt') k t' = Some (replicate k None, t'))"
proof (intro conjI impI)
  assume a: "pulls nxt (length xs) s = Some (map Some xs, s1) \<and> (\<forall>x\<in>set xs. p x) \<and>
    nxt s1 = Some (v, s2) \<and> (\<forall>x. v = Some x \<longrightarrow> \<not> p x)"
  show "each call (take_while_next pure_call nxt)
        \<lparr>iterator = \<lparr>test_func = p, tw_base = s, ended = False\<rparr>\<rparr> f =
      Some (\<lparr>iterator = \<lparr>test_func = p, tw_base = s2, ended = True\<rparr>\<rparr>,
            fold (\<lambda>x f. snd (call x f)) xs f)"
    by (rule each_take_while_general [where v = v]) (use a in blast)+
next
  show "each call (take_while_next pure_call list_next)
       \<lparr>iterator = \<lparr>test_func = p, tw_base = S, ended = False\<rparr>\<rparr> f =
     Some (\<lparr>iterator = \<lparr>test_func = p, tw_base = drop 1 (dropWhile p S), ended = True\<rparr>\<rparr>,
           fold (\<lambda>x f. snd (call x f)) (takeWhile p S) f)"
    by (rule each_take_while_list)
next
  assume "take_while_next tcall nxt t = Some (None, t')"
  then have e: "ended t'" by (rule take_while_next_None)
  then show "take_while_next tcall nxt' t' = Some (None, t')"
    by (rule take_while_next_ended)
  then show "pulls (take_while_next tcall nxt') k t' = Some (replicate k None, t')"
    by (rule pulls_fixed)
  from e show "take_while_next tcall (stuck_next :: ('s, 'a) next_fn) t' = Some (None, t')"
    by (rule take_while_next_ended)
qed

theorem take_while_maximal_prefix_witness:
  "pulls range_next (length [0, 1, 2 :: 32 word]) (iterator (range_end (0 :: 32 word) 10)) =
     Some (map Some [0, 1, 2], iterator (range_end 3 10)) \<and>
   range_next (iterator (range_end (3 :: 32 word) 10)) = Some (Some 3, iterator (range_end 4 10)) \<and>
   each (logged (\<lambda>_. ())) (take_while_next pure_call range_next)
       \<lparr>iterator = \<lparr>test_func = (\<lambda>x. x < 3), tw_base = iterator (range_end (0 :: 32 word) 10),
          ended = False\<rparr>\<rparr> [] =
     Some (\<lparr>iterator = \<lparr>test_func = (\<lambda>x. x < 3), tw_base = iterator (range_end 4 10),
          ended = True\<rparr>\<rparr>, [0, 1, 2]) \<and>
   take_while_next pure_call range_next
      \<lparr>test_func = (\<lambda>x. x < 3), tw_base = iterator (range_end (3 :: 32 word) 10),
         ended = False\<rparr> =
     Some (None, \<lparr>test_func = (\<lambda>x. x < 3), tw_base = iterator (range_end 4 10),
         ended = True\<rparr>) \<and>
   pulls (take_while_next pure_call range_next) 2
      \<lparr>test_func = (\<lambda>x. x < 3), tw_base = iterator (range_end (4 :: 32 word) 10),
         ended = True\<rparr> =
     Some ([None, None], \<lparr>test_func = (\<lambda>x. x < 3), tw_base = iterator (range_end 4 10),
         ended = True\<rparr>)"
proof -
  have h1: "pulls range_next (length [0, 1, 2 :: 32 word]) (iterator (range_end (0 :: 32 word) 10)) =
     Some (map Some [0, 1, 2], iterator (range_end 3 10))"
    by (simp add: range_end_def range_last_def range_next_def)
  have h2: "\<forall>x\<in>set [0, 1, 2 :: 32 word]. x < 3" by simp
  have h3: "range_next (iterator (range_end (3 :: 32 word) 10)) =
      Some (Some 3, iterator (range_end 4 10))"
    by (simp add: range_end_def range_last_def range_next_def)
  have h4: "\<forall>x. Some (3 :: 32 word) = Some x \<longrightarrow> \<not> x < 3" by simp
  have h5: "take_while_next pure_call range_next
      \<lparr>test_func = (\<lambda>x. x < 3), tw_base = iterator (range_end (3 :: 32 word) 10),
         ended = False\<rparr> =
     Some (None, \<lparr>test_func = (\<lambda>x. x < 3), tw_base = iterator (range_end 4 10),
         ended = True\<rparr>)"
    by (simp add: take_while_next_def pure_call_def h3)
  note T = take_while_maximal_prefix [where nxt = range_next and xs = "[0, 1, 2 :: 32 word]"
      and s = "iterator (range_end (0 :: 32 word) 10)" and ?s1.0 = "iterator (range_end 3 10)"
      and p = "\<lambda>x. x < 3" and v = "Some 3" and ?s2.0 = "iterator (range_end 4 10)"
      and call = "logged (\<lambda>_. ())" and f = "[]" and S = "[]" and tcall = pure_call
      and t = "\<lparr>test_func = (\<lambda>x. x < 3), tw_base = iterator (range_end (3 :: 32 word) 10),
         ended = False\<rparr>"
      and t' = "\<lparr>test_func = (\<lambda>x. x < 3), tw_base = iterator (range_end (4 :: 32 word) 10),
         ended = True\<rparr>"
      and nxt' = range_next and k = 2]
  from T h1 h2 h3 h4 have c1: "each (logged (\<lambda>_. ())) (take_while_next pure_call range_next)
       \<lparr>iterator = \<lparr>test_func = (\<lambda>x. x < 3), tw_base = iterator (range_end (0 :: 32 word) 10),
          ended = False\<rparr>\<rparr> [] =
     Some (\<lparr>iterator = \<lparr>test_func = (\<lambda>x. x < 3), tw_base = iterator (range_end 4 10),
          ended = True\<rparr>\<rparr>, fold (\<lambda>x f. snd (logged (\<lambda>_. ()) x f)) [0, 1, 2] [])"
    by blast
  from T h5 have c2: "pulls (take_while_next pure_call range_next) 2
      \<lparr>test_func = (\<lambda>x. x < 3), tw_base = iterator (range_end (4 :: 32 word) 10),
         ended = True\<rparr> =
     Some (replicate 2 None, \<lparr>test_func = (\<lambda>x. x < 3), tw_base = iterator (range_end 4 10),
         ended = True\<rparr>)"
    by blast
  have r: "replicate 2 None = [None, None]" by (simp add: numeral_2_eq_2)
  show ?thesis using h1 h2 h3 h5 c1 c2 unfolding r by (simp add: logged_def)
qed

subsection \<open>C4: filter yields the subsequence that satisfies the predicate\<close>

text \<open>
  C4, for a predicate \<open>p\<close> without members of its own: let the inner iterator yield the
  values \<open>xs\<close> and then empty. Then \<^verbatim>\<open>each\<close> over
  filter(\<open>p\<close>) calls its function on exactly \<open>filter p xs\<close>: the elements of \<open>xs\<close> that
  satisfy \<open>p\<close>, in the order of \<open>xs\<close>, each as often as it occurs. One call of
  \<^verbatim>\<open>next\<close> that meets the rejected values \<open>rs\<close> before a passing value or the end leaves
  the inner iterator past all of them: the rejected values are consumed.
\<close>

theorem filter_subsequence:
  "(pulls nxt (length xs) s = Some (map Some xs, s1) \<and> nxt s1 = Some (None, s2) \<longrightarrow>
      each call (filter_next pure_call nxt)
        \<lparr>iterator = \<lparr>filter_func = p, filter_base = s\<rparr>\<rparr> f =
      Some (\<lparr>iterator = \<lparr>filter_func = p, filter_base = s2\<rparr>\<rparr>,
            fold (\<lambda>x f. snd (call x f)) (filter p xs) f)) \<and>
   each call (filter_next pure_call list_next)
       \<lparr>iterator = \<lparr>filter_func = p, filter_base = S\<rparr>\<rparr> f =
     Some (\<lparr>iterator = \<lparr>filter_func = p, filter_base = []\<rparr>\<rparr>,
           fold (\<lambda>x f. snd (call x f)) (filter p S) f) \<and>
   (pulls nxt (length rs) s = Some (map Some rs, r1) \<and> (\<forall>x\<in>set rs. \<not> p x) \<and>
    nxt r1 = Some (v, r2) \<and> (\<forall>x. v = Some x \<longrightarrow> p x) \<longrightarrow>
      filter_next pure_call nxt \<lparr>filter_func = p, filter_base = s\<rparr> =
      Some (v, \<lparr>filter_func = p, filter_base = r2\<rparr>)) \<and>
   filter_next pure_call list_next \<lparr>filter_func = p, filter_base = S\<rparr> =
     Some (find p S, \<lparr>filter_func = p, filter_base = drop 1 (dropWhile (\<lambda>x. \<not> p x) S)\<rparr>)"
proof (intro conjI impI)
  assume a: "pulls nxt (length xs) s = Some (map Some xs, s1) \<and> nxt s1 = Some (None, s2)"
  show "each call (filter_next pure_call nxt)
        \<lparr>iterator = \<lparr>filter_func = p, filter_base = s\<rparr>\<rparr> f =
      Some (\<lparr>iterator = \<lparr>filter_func = p, filter_base = s2\<rparr>\<rparr>,
            fold (\<lambda>x f. snd (call x f)) (filter p xs) f)"
    by (rule each_filter_general) (use a in blast)+
next
  show "each call (filter_next pure_call list_next)
       \<lparr>iterator = \<lparr>filter_func = p, filter_base = S\<rparr>\<rparr> f =
     Some (\<lparr>iterator = \<lparr>filter_func = p, filter_base = []\<rparr>\<rparr>,
           fold (\<lambda>x f. snd (call x f)) (filter p S) f)"
    by (rule each_filter_list)
next
  assume a: "pulls nxt (length rs) s = Some (map Some rs, r1) \<and> (\<forall>x\<in>set rs. \<not> p x) \<and>
    nxt r1 = Some (v, r2) \<and> (\<forall>x. v = Some x \<longrightarrow> p x)"
  show "filter_next pure_call nxt \<lparr>filter_func = p, filter_base = s\<rparr> =
      Some (v, \<lparr>filter_func = p, filter_base = r2\<rparr>)"
    by (rule filter_next_skips [where rs = rs and ?s1.0 = r1]) (use a in blast)+
next
  show "filter_next pure_call list_next \<lparr>filter_func = p, filter_base = S\<rparr> =
     Some (find p S, \<lparr>filter_func = p, filter_base = drop 1 (dropWhile (\<lambda>x. \<not> p x) S)\<rparr>)"
    by (rule filter_next_list)
qed

theorem filter_subsequence_witness:
  "pulls range_next (length [0, 1, 2, 3, 4 :: 32 word]) (iterator (range_end (0 :: 32 word) 5)) =
     Some (map Some [0, 1, 2, 3, 4], iterator (range_end 5 5)) \<and>
   range_next (iterator (range_end (5 :: 32 word) 5)) = Some (None, iterator (range_end 5 5)) \<and>
   each (logged (\<lambda>_. ())) (filter_next pure_call range_next)
       \<lparr>iterator = \<lparr>filter_func = even,
          filter_base = iterator (range_end (0 :: 32 word) 5)\<rparr>\<rparr> [] =
     Some (\<lparr>iterator = \<lparr>filter_func = even, filter_base = iterator (range_end 5 5)\<rparr>\<rparr>,
          [0, 2, 4]) \<and>
   pulls range_next (length [1 :: 32 word]) (iterator (range_end (1 :: 32 word) 5)) =
     Some (map Some [1], iterator (range_end 2 5)) \<and>
   \<not> even (1 :: 32 word) \<and>
   range_next (iterator (range_end (2 :: 32 word) 5)) = Some (Some 2, iterator (range_end 3 5)) \<and>
   filter_next pure_call range_next
       \<lparr>filter_func = even, filter_base = iterator (range_end (1 :: 32 word) 5)\<rparr> =
     Some (Some 2, \<lparr>filter_func = even, filter_base = iterator (range_end 3 5)\<rparr>)"
proof -
  have h1: "pulls range_next (length [0, 1, 2, 3, 4 :: 32 word])
      (iterator (range_end (0 :: 32 word) 5)) =
     Some (map Some [0, 1, 2, 3, 4], iterator (range_end 5 5))"
    by (simp add: range_end_def range_last_def range_next_def)
  have h2: "range_next (iterator (range_end (5 :: 32 word) 5)) =
      Some (None, iterator (range_end 5 5))"
    by (simp add: range_end_def range_last_def range_next_def)
  have h3: "pulls range_next (length [1 :: 32 word]) (iterator (range_end (1 :: 32 word) 5)) =
     Some (map Some [1], iterator (range_end 2 5))"
    by (simp add: range_end_def range_last_def range_next_def)
  have h4: "\<forall>x\<in>set [1 :: 32 word]. \<not> even x" by simp
  have h5: "range_next (iterator (range_end (2 :: 32 word) 5)) =
      Some (Some 2, iterator (range_end 3 5))"
    by (simp add: range_end_def range_last_def range_next_def)
  have h6: "\<forall>x. Some (2 :: 32 word) = Some x \<longrightarrow> even x" by simp
  from h1 h2
    filter_subsequence [where nxt = range_next and xs = "[0, 1, 2, 3, 4 :: 32 word]"
      and s = "iterator (range_end (0 :: 32 word) 5)" and ?s1.0 = "iterator (range_end 5 5)"
      and ?s2.0 = "iterator (range_end 5 5)" and p = even
      and call = "logged (\<lambda>_. ())" and f = "[]" and S = "[]"
      and rs = "[1]" and ?r1.0 = "iterator (range_end 2 5)" and v = "Some 2"
      and ?r2.0 = "iterator (range_end 3 5)"]
  have c1: "each (logged (\<lambda>_. ())) (filter_next pure_call range_next)
       \<lparr>iterator = \<lparr>filter_func = even,
          filter_base = iterator (range_end (0 :: 32 word) 5)\<rparr>\<rparr> [] =
     Some (\<lparr>iterator = \<lparr>filter_func = even, filter_base = iterator (range_end 5 5)\<rparr>\<rparr>,
          fold (\<lambda>x f. snd (logged (\<lambda>_. ()) x f)) (filter even [0, 1, 2, 3, 4]) [])"
    by blast
  from h3 h4 h5 h6
    filter_subsequence [where nxt = range_next and rs = "[1 :: 32 word]"
      and s = "iterator (range_end (1 :: 32 word) 5)" and ?r1.0 = "iterator (range_end 2 5)"
      and v = "Some 2" and ?r2.0 = "iterator (range_end 3 5)" and p = even
      and xs = "[]" and ?s1.0 = "iterator (range_end 5 5)"
      and ?s2.0 = "iterator (range_end 5 5)"
      and call = "logged (\<lambda>_. ())" and f = "[]" and S = "[]"]
  have c2: "filter_next pure_call range_next
       \<lparr>filter_func = even, filter_base = iterator (range_end (1 :: 32 word) 5)\<rparr> =
     Some (Some 2, \<lparr>filter_func = even, filter_base = iterator (range_end 3 5)\<rparr>)"
    by blast
  show ?thesis using h1 h2 h3 h4 h5 c1 c2 by (simp add: logged_def)
qed

subsection \<open>C5: map applies the function element by element and on demand\<close>

text \<open>
  C5: with a function \<open>g\<close> that records its invocations, \<open>k\<close> calls of \<^verbatim>\<open>next\<close> on
  map(\<open>g\<close>) return \<open>g\<close> of each of the first \<open>k\<close> results of the inner iterator, in order,
  and empty where the inner result is empty; the record of invocations grows by exactly
  the present values among these \<open>k\<close> results, once each, and the inner iterator is where
  \<open>k\<close> calls leave it. Over a finite sequence \<open>S\<close>, \<open>k\<close> calls invoke \<open>g\<close> on \<open>take k S\<close>
  and on nothing beyond, and \<^verbatim>\<open>each\<close> calls its function on \<open>map g S\<close>, which has the
  length of \<open>S\<close>.
\<close>

theorem map_elementwise_lazy:
  "pulls (map_next (logged g) nxt) k \<lparr>map_func = log, map_base = s\<rparr> =
     (case pulls nxt k s of
        None \<Rightarrow> None
      | Some (vs, s') \<Rightarrow>
          Some (map (map_option g) vs, \<lparr>map_func = log @ present vs, map_base = s'\<rparr>)) \<and>
   pulls (map_next (logged g) list_next) k \<lparr>map_func = [], map_base = S\<rparr> =
     Some (map (Some \<circ> g) (take k S) @ replicate (k - length S) None,
           \<lparr>map_func = take k S, map_base = drop k S\<rparr>) \<and>
   each call (map_next pure_call list_next) \<lparr>iterator = \<lparr>map_func = g, map_base = S\<rparr>\<rparr> f =
     Some (\<lparr>iterator = \<lparr>map_func = g, map_base = []\<rparr>\<rparr>,
           fold (\<lambda>x f. snd (call x f)) (map g S) f) \<and>
   length (map g S) = length S"
proof (intro conjI)
  show "pulls (map_next (logged g) nxt) k \<lparr>map_func = log, map_base = s\<rparr> =
     (case pulls nxt k s of
        None \<Rightarrow> None
      | Some (vs, s') \<Rightarrow>
          Some (map (map_option g) vs, \<lparr>map_func = log @ present vs, map_base = s'\<rparr>))"
    by (rule pulls_map_logged)
  show "pulls (map_next (logged g) list_next) k \<lparr>map_func = [], map_base = S\<rparr> =
     Some (map (Some \<circ> g) (take k S) @ replicate (k - length S) None,
           \<lparr>map_func = take k S, map_base = drop k S\<rparr>)"
    by (simp add: pulls_map_logged pulls_list present_values)
  show "each call (map_next pure_call list_next) \<lparr>iterator = \<lparr>map_func = g, map_base = S\<rparr>\<rparr> f =
     Some (\<lparr>iterator = \<lparr>map_func = g, map_base = []\<rparr>\<rparr>,
           fold (\<lambda>x f. snd (call x f)) (map g S) f)"
    by (rule each_map_list)
  show "length (map g S) = length S" by simp
qed

subsection \<open>C6: what a chain operation does to the wrapper it is called on\<close>

text \<open>
  C6 as stated fails: the chain methods copy \<^verbatim>\<open>iterator_\<close> into the new decorator and do
  not change the wrapper they are called on. After \<^verbatim>\<open>map\<close>, \<^verbatim>\<open>filter\<close>, \<^verbatim>\<open>take\<close> or
  \<^verbatim>\<open>take_while\<close> has been called on the wrapper \<^verbatim>\<open>range(0, 3)\<close>, \<^verbatim>\<open>each\<close> on that
  wrapper still calls its function on 0, 1, 2.
\<close>

theorem chain_keeps_original_counterexample:
  "map_option snd (each (logged (\<lambda>_. ())) range_next
      (snd (wrapper_map (\<lambda>x :: 32 word. x + 1) (range_end (0 :: 32 word) 3))) []) =
     Some [0, 1, 2] \<and>
   map_option snd (each (logged (\<lambda>_. ())) range_next
      (snd (wrapper_filter (\<lambda>x :: 32 word. x = 1) (range_end (0 :: 32 word) 3))) []) =
     Some [0, 1, 2] \<and>
   map_option snd (each (logged (\<lambda>_. ())) range_next
      (snd (wrapper_take 1 (range_end (0 :: 32 word) 3))) []) =
     Some [0, 1, 2] \<and>
   map_option snd (each (logged (\<lambda>_. ())) range_next
      (snd (wrapper_take_while (\<lambda>x :: 32 word. x = 0) (range_end (0 :: 32 word) 3))) []) =
     Some [0, 1, 2]"
proof -
  have p: "pulls range_next (length [0, 1, 2 :: 32 word]) (iterator (range_end (0 :: 32 word) 3)) =
     Some (map Some [0, 1, 2], iterator (range_end 3 3))"
    by (simp add: range_end_def range_last_def range_next_def)
  have e: "range_next (iterator (range_end (3 :: 32 word) 3)) =
      Some (None, iterator (range_end 3 3))"
    by (simp add: range_end_def range_last_def range_next_def)
  have "each (logged (\<lambda>_. ())) range_next (range_end (0 :: 32 word) 3) [] =
      Some ((range_end (0 :: 32 word) 3)\<lparr>iterator := iterator (range_end 3 3)\<rparr>,
        fold (\<lambda>x f. snd (logged (\<lambda>_. ()) x f)) [0, 1, 2] [])"
    using p e by (rule each_present)
  then show ?thesis
    by (simp add: wrapper_map_def wrapper_filter_def wrapper_take_def wrapper_take_while_def
        logged_def)
qed

text \<open>
  C6, amended: every chain operation (map, filter, take, take\_while) returns a new
  wrapper around the decorator that holds a copy of the wrapped iterator, and leaves the
  wrapper it was called on unchanged: that wrapper remains a usable sequence with its own
  state, and \<^verbatim>\<open>each\<close> on it does after the call what it does before the call.
\<close>

theorem chain_copies_iterator:
  "wrapper_map f w = (\<lparr>iterator = \<lparr>map_func = f, map_base = iterator w\<rparr>\<rparr>, w) \<and>
   wrapper_filter p w = (\<lparr>iterator = \<lparr>filter_func = p, filter_base = iterator w\<rparr>\<rparr>, w) \<and>
   wrapper_take n w = (\<lparr>iterator = \<lparr>num = n, take_base = iterator w\<rparr>\<rparr>, w) \<and>
   wrapper_take_while q w =
     (\<lparr>iterator = \<lparr>test_func = q, tw_base = iterator w, ended = False\<rparr>\<rparr>, w) \<and>
   each call nxt (snd (wrapper_map f w)) h = each call nxt w h \<and>
   each call nxt (snd (wrapper_filter p w)) h = each call nxt w h \<and>
   each call nxt (snd (wrapper_take n w)) h = each call nxt w h \<and>
   each call nxt (snd (wrapper_take_while q w)) h = each call nxt w h"
  by (simp add: wrapper_map_def wrapper_filter_def wrapper_take_def wrapper_take_while_def)

subsection \<open>C7: next of a range\<close>

text \<open>
  C7: \<^verbatim>\<open>range_iterator::next\<close> returns empty exactly when \<^verbatim>\<open>is_last_\<close> holds on the
  current position; then the iterator is unchanged, so every later call returns empty
  too; otherwise \<^verbatim>\<open>next\<close> calls the step function on the position and returns its
  result, and the position is what the step function left.
\<close>

theorem range_next_exhaustion:
  "((\<exists>r'. range_next r = Some (None, r')) \<longleftrightarrow> is_last r (actual r)) \<and>
   (is_last r (actual r) \<longrightarrow>
      range_next r = Some (None, r) \<and> pulls range_next k r = Some (replicate k None, r)) \<and>
   (\<not> is_last r (actual r) \<longrightarrow>
      range_next r =
        Some (Some (fst (func_next r (actual r))), r\<lparr>actual := snd (func_next r (actual r))\<rparr>))"
proof (intro conjI impI)
  show "(\<exists>r'. range_next r = Some (None, r')) \<longleftrightarrow> is_last r (actual r)"
    by (auto simp: range_next_def split: prod.splits)
next
  assume "is_last r (actual r)"
  then show l: "range_next r = Some (None, r)" by (simp add: range_next_def)
  then show "pulls range_next k r = Some (replicate k None, r)" by (rule pulls_fixed)
next
  assume "\<not> is_last r (actual r)"
  then show "range_next r =
      Some (Some (fst (func_next r (actual r))), r\<lparr>actual := snd (func_next r (actual r))\<rparr>)"
    by (simp add: range_next_def split: prod.splits)
qed

theorem range_next_exhaustion_witness:
  "is_last \<lparr>actual = 5 :: 32 word, is_last = (\<lambda>v. v = 5), func_next = (\<lambda>v. (v, v + 1))\<rparr>
     (actual \<lparr>actual = 5 :: 32 word, is_last = (\<lambda>v. v = 5), func_next = (\<lambda>v. (v, v + 1))\<rparr>) \<and>
   pulls range_next 3
      \<lparr>actual = 5 :: 32 word, is_last = (\<lambda>v. v = 5), func_next = (\<lambda>v. (v, v + 1))\<rparr> =
     Some ([None, None, None],
       \<lparr>actual = 5, is_last = (\<lambda>v. v = 5), func_next = (\<lambda>v. (v, v + 1))\<rparr>) \<and>
   \<not> is_last \<lparr>actual = 4 :: 32 word, is_last = (\<lambda>v. v = 5), func_next = (\<lambda>v. (v, v + 1))\<rparr>
     (actual \<lparr>actual = 4 :: 32 word, is_last = (\<lambda>v. v = 5), func_next = (\<lambda>v. (v, v + 1))\<rparr>) \<and>
   range_next
      \<lparr>actual = 4 :: 32 word, is_last = (\<lambda>v. v = 5), func_next = (\<lambda>v. (v, v + 1))\<rparr> =
     Some (Some 4, \<lparr>actual = 5, is_last = (\<lambda>v. v = 5), func_next = (\<lambda>v. (v, v + 1))\<rparr>)"
proof -
  have h1: "is_last \<lparr>actual = 5 :: 32 word, is_last = (\<lambda>v. v = 5), func_next = (\<lambda>v. (v, v + 1))\<rparr>
     (actual \<lparr>actual = 5 :: 32 word, is_last = (\<lambda>v. v = 5), func_next = (\<lambda>v. (v, v + 1))\<rparr>)"
    by simp
  have h2: "\<not> is_last
      \<lparr>actual = 4 :: 32 word, is_last = (\<lambda>v. v = 5), func_next = (\<lambda>v. (v, v + 1))\<rparr>
     (actual \<lparr>actual = 4 :: 32 word, is_last = (\<lambda>v. v = 5), func_next = (\<lambda>v. (v, v + 1))\<rparr>)"
    by simp
  from h1 range_next_exhaustion
      [where r = "\<lparr>actual = 5 :: 32 word, is_last = (\<lambda>v. v = 5), func_next = (\<lambda>v. (v, v + 1))\<rparr>"
        and k = 3]
  have c1: "pulls range_next 3
      \<lparr>actual = 5 :: 32 word, is_last = (\<lambda>v. v = 5), func_next = (\<lambda>v. (v, v + 1))\<rparr> =
     Some (replicate 3 None,
       \<lparr>actual = 5, is_last = (\<lambda>v. v = 5), func_next = (\<lambda>v. (v, v + 1))\<rparr>)"
    by blast
  from h2 range_next_exhaustion
      [where r = "\<lparr>actual = 4 :: 32 word, is_last = (\<lambda>v. v = 5), func_next = (\<lambda>v. (v, v + 1))\<rparr>"
        and k = 0]
  have c2: "range_next
      \<lparr>actual = 4 :: 32 word, is_last = (\<lambda>v. v = 5), func_next = (\<lambda>v. (v, v + 1))\<rparr> =
     Some (Some (fst (func_next
         \<lparr>actual = 4 :: 32 word, is_last = (\<lambda>v. v = 5), func_next = (\<lambda>v. (v, v + 1))\<rparr>
         (actual \<lparr>actual = 4 :: 32 word, is_last = (\<lambda>v. v = 5),
            func_next = (\<lambda>v. (v, v + 1))\<rparr>))),
       \<lparr>actual = 4 :: 32 word, is_last = (\<lambda>v. v = 5), func_next = (\<lambda>v. (v, v + 1))\<rparr>
       \<lparr>actual := snd (func_next
         \<lparr>actual = 4 :: 32 word, is_last = (\<lambda>v. v = 5), func_next = (\<lambda>v. (v, v + 1))\<rparr>
         (actual \<lparr>actual = 4 :: 32 word, is_last = (\<lambda>v. v = 5),
            func_next = (\<lambda>v. (v, v + 1))\<rparr>))\<rparr>)"
    by blast
  have r: "replicate 3 None = [None, None, None]" by (simp add: numeral_3_eq_3)
  show ?thesis using c1 c2 unfolding r by simp
qed

subsection \<open>C8: building a chain evaluates nothing\<close>

text \<open>
  C8: building \<^verbatim>\<open>range(0, 1000000).map(f)\<close> gives the nested value with the callable as
  it was passed and the range at position 0. With a callable that records its
  invocations, starting from an empty record, the record after \<open>k\<close> calls of \<^verbatim>\<open>next\<close>
  holds exactly the first \<open>min k 1000000\<close> values of the range: \<open>f\<close> is invoked once per
  call of \<^verbatim>\<open>next\<close> that yields a value, and with no call of \<^verbatim>\<open>next\<close> the record is
  empty, so \<open>f\<close> has been invoked zero times.
\<close>

theorem construction_is_lazy:
  "fst (wrapper_map log (range_end (0 :: 32 word) 1000000)) =
     \<lparr>iterator = \<lparr>map_func = log,
        map_base = \<lparr>actual = 0, is_last = (\<lambda>v. v = 1000000),
          func_next = (\<lambda>v. (v, v + 1))\<rparr>\<rparr>\<rparr> \<and>
   pulls (map_next (logged g) range_next) k
       (iterator (fst (wrapper_map [] (range_end (0 :: 32 word) 1000000)))) =
     Some (map (Some \<circ> g \<circ> of_nat) [0..<min k 1000000] @ replicate (k - 1000000) None,
       \<lparr>map_func = map of_nat [0..<min k 1000000],
          map_base = \<lparr>actual = of_nat (min k 1000000), is_last = (\<lambda>v. v = 1000000),
            func_next = (\<lambda>v. (v, v + 1))\<rparr>\<rparr>) \<and>
   pulls (map_next (logged g) range_next) 0
       (iterator (fst (wrapper_map [] (range_end (0 :: 32 word) 1000000)))) =
     Some ([], \<lparr>map_func = [],
          map_base = \<lparr>actual = 0, is_last = (\<lambda>v. v = 1000000),
            func_next = (\<lambda>v. (v, v + 1))\<rparr>\<rparr>)"
proof (intro conjI)
  show "fst (wrapper_map log (range_end (0 :: 32 word) 1000000)) =
     \<lparr>iterator = \<lparr>map_func = log,
        map_base = \<lparr>actual = 0, is_last = (\<lambda>v. v = 1000000),
          func_next = (\<lambda>v. (v, v + 1))\<rparr>\<rparr>\<rparr>"
    by (simp add: wrapper_map_def range_end_def range_last_def)
  have i: "iterator (fst (wrapper_map [] (range_end (0 :: 32 word) 1000000))) =
      \<lparr>map_func = [], map_base = \<lparr>actual = 0, is_last = (\<lambda>v. v = 1000000),
          func_next = (\<lambda>v. (v, v + 1))\<rparr>\<rparr>"
    by (simp add: wrapper_map_def range_end_def range_last_def)
  have p: "present (map (Some \<circ> of_nat) [0..<j] @ replicate m None) =
      (map of_nat [0..<j] :: 32 word list)" for j m
    using present_values [of "map of_nat [0..<j] :: 32 word list" m] by simp
  show "pulls (map_next (logged g) range_next) k
       (iterator (fst (wrapper_map [] (range_end (0 :: 32 word) 1000000)))) =
     Some (map (Some \<circ> g \<circ> of_nat) [0..<min k 1000000] @ replicate (k - 1000000) None,
       \<lparr>map_func = map of_nat [0..<min k 1000000],
          map_base = \<lparr>actual = of_nat (min k 1000000), is_last = (\<lambda>v. v = 1000000),
            func_next = (\<lambda>v. (v, v + 1))\<rparr>\<rparr>)"
    unfolding i by (simp add: pulls_map_logged pulls_range_million p)
  show "pulls (map_next (logged g) range_next) 0
       (iterator (fst (wrapper_map [] (range_end (0 :: 32 word) 1000000)))) =
     Some ([], \<lparr>map_func = [],
          map_base = \<lparr>actual = 0, is_last = (\<lambda>v. v = 1000000),
            func_next = (\<lambda>v. (v, v + 1))\<rparr>\<rparr>)"
    unfolding i by simp
qed

subsection \<open>C9: range(0, 5) consumed by each\<close>

text \<open>
  C9: \<^verbatim>\<open>each\<close> on \<^verbatim>\<open>range(0, 5)\<close> calls its function on 0, 1, 2, 3, 4 in this order and
  on nothing else, and returns with the range at position 5; a function that records its
  arguments has recorded the list \<open>[0, 1, 2, 3, 4]\<close>.
\<close>

theorem range_0_5_each:
  "each call range_next (range_end (0 :: 32 word) 5) f =
     Some (\<lparr>iterator = \<lparr>actual = 5, is_last = (\<lambda>v. v = 5), func_next = (\<lambda>v. (v, v + 1))\<rparr>\<rparr>,
           fold (\<lambda>x f. snd (call x f)) [0, 1, 2, 3, 4] f) \<and>
   each (logged g) range_next (range_end (0 :: 32 word) 5) [] =
     Some (\<lparr>iterator = \<lparr>actual = 5, is_last = (\<lambda>v. v = 5), func_next = (\<lambda>v. (v, v + 1))\<rparr>\<rparr>,
           [0, 1, 2, 3, 4])"
proof -
  let ?r = "\<lambda>a. \<lparr>actual = a :: 32 word, is_last = (\<lambda>v. v = 5), func_next = (\<lambda>v. (v, v + 1))\<rparr>"
  have p: "pulls range_next (length [0, 1, 2, 3, 4 :: 32 word])
      (iterator (range_end (0 :: 32 word) 5)) = Some (map Some [0, 1, 2, 3, 4], ?r 5)"
    by (simp add: range_end_def range_last_def range_next_def)
  have e: "range_next (?r 5) = Some (None, ?r 5)"
    by (simp add: range_next_def)
  have "each c range_next (range_end (0 :: 32 word) 5) h =
      Some ((range_end (0 :: 32 word) 5)\<lparr>iterator := ?r 5\<rparr>,
        fold (\<lambda>x f. snd (c x f)) [0, 1, 2, 3, 4] h)" for c :: "(32 word \<Rightarrow> 'x \<Rightarrow> 'y \<times> 'x)" and h
    using p e by (rule each_present)
  then have g: "each c range_next (range_end (0 :: 32 word) 5) h =
      Some (\<lparr>iterator = ?r 5\<rparr>, fold (\<lambda>x f. snd (c x f)) [0, 1, 2, 3, 4] h)"
    for c :: "(32 word \<Rightarrow> 'x \<Rightarrow> 'y \<times> 'x)" and h
    by (simp add: range_end_def range_last_def)
  show ?thesis by (simp add: g logged_def)
qed

subsection \<open>C10: the end test of the convenience overloads is equality\<close>

text \<open>
  C10: \<^verbatim>\<open>range(begin, end)\<close> is \<^verbatim>\<open>range(begin, end, step)\<close> with the incrementing step,
  and both build the predicate \<open>\<lambda>v. v = end\<close>. So \<^verbatim>\<open>next\<close> returns a present value
  whenever the position differs from \<open>end\<close>; and when no number of steps brings the
  position to \<open>end\<close>, every call of \<^verbatim>\<open>next\<close> returns a present value and \<^verbatim>\<open>each\<close> never
  returns.
\<close>

theorem range_end_equality_test:
  "range_end b e = range_end_step b e (\<lambda>v. (v, v + 1)) \<and>
   iterator (range_end_step b' e' step) =
     \<lparr>actual = b', is_last = (\<lambda>v. v = e'), func_next = step\<rparr> \<and>
   (a \<noteq> e' \<longrightarrow>
      range_next \<lparr>actual = a, is_last = (\<lambda>v. v = e'), func_next = step\<rparr> =
        Some (Some (fst (step a)),
              \<lparr>actual = snd (step a), is_last = (\<lambda>v. v = e'), func_next = step\<rparr>)) \<and>
   ((\<forall>j. position step j b' \<noteq> e') \<longrightarrow>
      pulls range_next k (iterator (range_end_step b' e' step)) =
        Some (map (\<lambda>j. Some (fst (step (position step j b')))) [0..<k],
              \<lparr>actual = position step k b', is_last = (\<lambda>v. v = e'), func_next = step\<rparr>) \<and>
      each call range_next (range_end_step b' e' step) f = None)"
proof (intro conjI impI)
  show "range_end b e = range_end_step b e (\<lambda>v. (v, v + 1))"
    by (simp add: range_end_def range_end_step_def)
  show i: "iterator (range_end_step b' e' step) =
     \<lparr>actual = b', is_last = (\<lambda>v. v = e'), func_next = step\<rparr>"
    by (simp add: range_end_step_def range_last_def)
  {
    assume "a \<noteq> e'"
    then show "range_next \<lparr>actual = a, is_last = (\<lambda>v. v = e'), func_next = step\<rparr> =
        Some (Some (fst (step a)),
              \<lparr>actual = snd (step a), is_last = (\<lambda>v. v = e'), func_next = step\<rparr>)"
      by (simp add: range_next_def split: prod.splits)
  }
  {
    assume n: "\<forall>j. position step j b' \<noteq> e'"
    have p: "pulls range_next m (iterator (range_end_step b' e' step)) =
        Some (map (\<lambda>j. Some (fst (step (position step j b')))) [0..<m],
              \<lparr>actual = position step m b', is_last = (\<lambda>v. v = e'), func_next = step\<rparr>)" for m
      unfolding i by (rule pulls_range) (simp add: n)
    show "pulls range_next k (iterator (range_end_step b' e' step)) =
        Some (map (\<lambda>j. Some (fst (step (position step j b')))) [0..<k],
              \<lparr>actual = position step k b', is_last = (\<lambda>v. v = e'), func_next = step\<rparr>)"
      by (rule p)
    show "each call range_next (range_end_step b' e' step) f = None"
    proof (rule each_diverges)
      fix m
      have "map (\<lambda>j. Some (fst (step (position step j b')))) [0..<m] =
          map Some (map (\<lambda>j. fst (step (position step j b'))) [0..<m])"
        by simp
      with p [of m] show "\<exists>xs s'. pulls range_next m (iterator (range_end_step b' e' step)) =
          Some (map Some xs, s')"
        by metis
    qed
  }
qed

theorem range_end_equality_test_witness:
  "(\<forall>j. position (\<lambda>v. (v, v + 2)) j (0 :: 32 word) \<noteq> 5) \<and>
   pulls range_next 4 (iterator (range_end_step (0 :: 32 word) 5 (\<lambda>v. (v, v + 2)))) =
     Some ([Some 0, Some 2, Some 4, Some 6],
       \<lparr>actual = 8, is_last = (\<lambda>v. v = 5), func_next = (\<lambda>v. (v, v + 2))\<rparr>) \<and>
   each (logged (\<lambda>_. ())) range_next (range_end_step (0 :: 32 word) 5 (\<lambda>v. (v, v + 2))) [] = None \<and>
   (4 :: 32 word) \<noteq> 5 \<and>
   range_next \<lparr>actual = 4 :: 32 word, is_last = (\<lambda>v. v = 5), func_next = (\<lambda>v. (v, v + 2))\<rparr> =
     Some (Some 4, \<lparr>actual = 6, is_last = (\<lambda>v. v = 5), func_next = (\<lambda>v. (v, v + 2))\<rparr>)"
proof -
  have h: "\<forall>j. position (\<lambda>v. (v, v + 2)) j (0 :: 32 word) \<noteq> 5"
    by (simp add: position_add_two word32_two_times_not_five)
  have a: "(4 :: 32 word) \<noteq> 5" by simp
  note T = range_end_equality_test [where b' = "0 :: 32 word" and e' = 5
      and step = "\<lambda>v. (v, v + 2)" and k = 4 and call = "logged (\<lambda>_. ())" and f = "[]"
      and a = 4 and b = "0 :: 32 word" and e = 5]
  from T h have c1: "pulls range_next 4 (iterator (range_end_step (0 :: 32 word) 5 (\<lambda>v. (v, v + 2)))) =
        Some (map (\<lambda>j. Some (fst ((\<lambda>v. (v, v + 2)) (position (\<lambda>v. (v, v + 2)) j 0)))) [0..<4],
              \<lparr>actual = position (\<lambda>v. (v, v + 2)) 4 0, is_last = (\<lambda>v. v = 5),
                 func_next = (\<lambda>v. (v, v + 2))\<rparr>)"
    and c2: "each (logged (\<lambda>_. ())) range_next
        (range_end_step (0 :: 32 word) 5 (\<lambda>v. (v, v + 2))) [] = None"
    by blast+
  from T a have c3: "range_next
      \<lparr>actual = 4 :: 32 word, is_last = (\<lambda>v. v = 5), func_next = (\<lambda>v. (v, v + 2))\<rparr> =
     Some (Some (fst ((\<lambda>v. (v, v + 2)) (4 :: 32 word))),
       \<lparr>actual = snd ((\<lambda>v. (v, v + 2)) (4 :: 32 word)), is_last = (\<lambda>v. v = 5),
          func_next = (\<lambda>v. (v, v + 2))\<rparr>)"
    by blast
  have u: "[0..<4] = [0, 1, 2, 3]" by (simp add: upt_rec)
  show ?thesis using h c1 c2 c3 unfolding u by (simp add: position_add_two)
qed

end
